theory Spec2Isabelle
  imports Main "HOL-Library.Char_ord" "HOL-Library.List_Lexorder" "HOL-Library.Word"
begin

section \<open>Strings\<close>

text \<open>
  A Python string is modelled by the bytes of its UTF-8 encoding, as a \<^typ>\<open>string\<close>.
  Equality, concatenation, the search for an ASCII character or for a substring and the
  order of two strings by code points are the same on the code points and on these bytes
  (an ASCII byte never lies inside the encoding of another character, and UTF-8 keeps the
  order of the code points).

  \<open>str.upper\<close> and \<open>str.lower\<close> map the 26 ASCII letters. Beyond ASCII the model holds
  the three characters that the properties below use, with the values Python gives them:
  the sharp s (U+00DF, bytes C3 9F), whose upper case is the two letters \<open>SS\<close>; the
  capital sharp s (U+1E9E, bytes E1 BA 9E), whose lower case is the sharp s; and the Kelvin
  sign (U+212A, bytes E2 84 AA), whose lower case is the letter \<open>k\<close>. Every other
  character outside ASCII is copied, where Python consults the Unicode tables; so what
  is proved below of the casing of an arbitrary string is stated for ASCII strings.
\<close>

definition upper_char :: "char \<Rightarrow> char" where
  "upper_char c =
     (case map_of (zip ''abcdefghijklmnopqrstuvwxyz'' ''ABCDEFGHIJKLMNOPQRSTUVWXYZ'') c of
        Some d \<Rightarrow> d | None \<Rightarrow> c)"

definition lower_char :: "char \<Rightarrow> char" where
  "lower_char c =
     (case map_of (zip ''ABCDEFGHIJKLMNOPQRSTUVWXYZ'' ''abcdefghijklmnopqrstuvwxyz'') c of
        Some d \<Rightarrow> d | None \<Rightarrow> c)"

definition sharp_s :: string where
  "sharp_s = [CHR 0xC3, CHR 0x9F]"

definition capital_sharp_s :: string where
  "capital_sharp_s = [CHR 0xE1, CHR 0xBA, CHR 0x9E]"

definition kelvin_sign :: string where
  "kelvin_sign = [CHR 0xE2, CHR 0x84, CHR 0xAA]"

fun upper :: "string \<Rightarrow> string" where
  "upper (a # b # cs) =
     (if [a, b] = sharp_s then ''SS'' @ upper cs else upper_char a # upper (b # cs))"
| "upper [a] = [upper_char a]"
| "upper [] = []"

fun lower :: "string \<Rightarrow> string" where
  "lower (a # b # c # cs) =
     (if [a, b, c] = capital_sharp_s then sharp_s @ lower cs
      else if [a, b, c] = kelvin_sign then ''k'' @ lower cs
      else lower_char a # lower (b # c # cs))"
| "lower [a, b] = [lower_char a, lower_char b]"
| "lower [a] = [lower_char a]"
| "lower [] = []"

text \<open>A string of ASCII characters only.\<close>

definition is_ascii :: "string \<Rightarrow> bool" where
  "is_ascii s = list_all (\<lambda>c. (of_char c :: nat) < 128) s"

text \<open>\<open>_op_key(method, path)\<close>: \<open>f"{method.upper()} {path}"\<close>.\<close>

definition op_key :: "string \<Rightarrow> string \<Rightarrow> string" where
  "op_key method path = upper method @ '' '' @ path"

section \<open>Path normalisation\<close>

text \<open>
  \<open>_normalize_path(path)\<close> is \<open>re.sub(r'\{[^}]+\}', '{param}', path)\<close>.
  \<open>match_placeholder cs\<close> matches \<open>[^}]+\}\<close> at the start of \<open>cs\<close>, the text after an
  opening brace, and returns the text after the match. The class \<open>[^}]+\<close> takes the
  longest run of characters other than the closing brace; it must be non-empty and a
  closing brace must follow (a shorter run is followed by a character of the run, never
  by a brace, so backtracking finds nothing more).
\<close>

definition match_placeholder :: "string \<Rightarrow> string option" where
  "match_placeholder cs =
     (let body = takeWhile (\<lambda>c. c \<noteq> CHR ''}'') cs;
          rest = dropWhile (\<lambda>c. c \<noteq> CHR ''}'') cs
      in if body = [] \<or> rest = [] then None else Some (tl rest))"

lemma match_placeholder_length:
  "match_placeholder cs = Some rest \<Longrightarrow> length rest < length cs"
proof -
  assume m: "match_placeholder cs = Some rest"
  let ?d = "dropWhile (\<lambda>c. c \<noteq> CHR ''}'') cs"
  from m have d: "?d \<noteq> []" and r: "rest = tl ?d"
    by (auto simp: match_placeholder_def Let_def split: if_splits)
  from d have "length (tl ?d) < length ?d" by (cases ?d) auto
  moreover have "length ?d \<le> length cs" by (rule length_dropWhile_le)
  ultimately show ?thesis using r by simp
qed

text \<open>
  \<open>re.sub\<close> scans the string from the left: where the pattern matches, the match is
  replaced and the scan goes on after it; elsewhere the character is copied.
\<close>

function normalize_path :: "string \<Rightarrow> string" where
  "normalize_path [] = []"
| "normalize_path (c # cs) =
     (if c = CHR ''{'' then
        (case match_placeholder cs of
           Some rest \<Rightarrow> ''{param}'' @ normalize_path rest
         | None \<Rightarrow> c # normalize_path cs)
      else c # normalize_path cs)"
  by pat_completeness auto
termination
  by (relation "measure length") (auto dest: match_placeholder_length)

section \<open>JSON documents and Python's operations on them\<close>

text \<open>
  What \<open>json.loads\<close> returns: \<open>None\<close>, a bool, an int, a float (its 64 IEEE bits), a
  string, a list or a dict. A dict is an association list in insertion order; the dicts
  of a parsed document have distinct keys.
\<close>

datatype json =
    JNull
  | JBool bool
  | JInt int
  | JFloat "64 word"
  | JStr string
  | JArr "json list"
  | JObj "(string \<times> json) list"

datatype error =
    FileNotFoundError
  | OSError
  | ReadError
  | AttributeError
  | TypeError
  | KeyError
  | ValueError

definition bind :: "error + 'a \<Rightarrow> ('a \<Rightarrow> error + 'b) \<Rightarrow> error + 'b" where
  "bind m f = (case m of Inl e \<Rightarrow> Inl e | Inr x \<Rightarrow> f x)"

text \<open>A \<open>for\<close> loop whose body may raise: the first error ends the loop.\<close>

fun for_each :: "('a \<Rightarrow> 's \<Rightarrow> error + 's) \<Rightarrow> 'a list \<Rightarrow> 's \<Rightarrow> error + 's" where
  "for_each body [] s = Inr s"
| "for_each body (x # xs) s =
     (case body x s of Inl e \<Rightarrow> Inl e | Inr s' \<Rightarrow> for_each body xs s')"

text \<open>Truth value of an object: \<open>bool(x)\<close>, \<open>if x\<close>, \<open>not x\<close>. Both float zeros are false.\<close>

fun truthy :: "json \<Rightarrow> bool" where
  "truthy JNull = False"
| "truthy (JBool b) = b"
| "truthy (JInt i) = (i \<noteq> 0)"
| "truthy (JFloat w) = (take_bit 63 w \<noteq> 0)"
| "truthy (JStr s) = (s \<noteq> [])"
| "truthy (JArr xs) = (xs \<noteq> [])"
| "truthy (JObj d) = (d \<noteq> [])"

text \<open>\<open>d[k] = v\<close> on a dict: an existing key keeps its place, a new one goes last.\<close>

fun dict_set :: "('k \<times> 'v) list \<Rightarrow> 'k \<Rightarrow> 'v \<Rightarrow> ('k \<times> 'v) list" where
  "dict_set [] k v = [(k, v)]"
| "dict_set ((k', v') # d) k v =
     (if k' = k then (k', v) # d else (k', v') # dict_set d k v)"

definition dict_keys :: "('k \<times> 'v) list \<Rightarrow> 'k list" where
  "dict_keys d = map fst d"

text \<open>\<open>x.get(k, default)\<close>: only a dict has the method.\<close>

fun py_get :: "json \<Rightarrow> string \<Rightarrow> json \<Rightarrow> error + json" where
  "py_get (JObj d) k dflt = Inr (case map_of d k of Some v \<Rightarrow> v | None \<Rightarrow> dflt)"
| "py_get _ k dflt = Inl AttributeError"

text \<open>\<open>x.items()\<close> and \<open>x.keys()\<close>.\<close>

fun py_items :: "json \<Rightarrow> error + (string \<times> json) list" where
  "py_items (JObj d) = Inr d"
| "py_items _ = Inl AttributeError"

fun py_keys :: "json \<Rightarrow> error + string list" where
  "py_keys (JObj d) = Inr (dict_keys d)"
| "py_keys _ = Inl AttributeError"

fun starts_with :: "'a list \<Rightarrow> 'a list \<Rightarrow> bool" where
  "starts_with t [] = True"
| "starts_with [] (c # s) = False"
| "starts_with (d # t) (c # s) = (d = c \<and> starts_with t s)"

fun is_substring :: "'a list \<Rightarrow> 'a list \<Rightarrow> bool" where
  "is_substring s [] = (s = [])"
| "is_substring s (c # t) = (starts_with (c # t) s \<or> is_substring s t)"

text \<open>
  \<open>k in x\<close> for a string \<open>k\<close>: a key of a dict, an element of a list (only a string
  equals a string), a substring of a string; anything else is not iterable.
\<close>

fun py_contains :: "string \<Rightarrow> json \<Rightarrow> error + bool" where
  "py_contains k (JObj d) = Inr (k \<in> set (dict_keys d))"
| "py_contains k (JArr xs) = Inr (JStr k \<in> set xs)"
| "py_contains k (JStr t) = Inr (is_substring k t)"
| "py_contains k _ = Inl TypeError"

text \<open>\<open>x[k]\<close> for a string \<open>k\<close>: only a dict can be indexed by a string.\<close>

fun py_getitem :: "json \<Rightarrow> string \<Rightarrow> error + json" where
  "py_getitem (JObj d) k = (case map_of d k of Some v \<Rightarrow> Inr v | None \<Rightarrow> Inl KeyError)"
| "py_getitem _ k = Inl TypeError"

section \<open>Files and configuration\<close>

text \<open>
  What the file system holds under a path: nothing (\<open>stat\<close> reports that there is no such
  file); nothing that can be reached, because the file system refuses the name itself
  with an error other than not-found, as it does for a name longer than it allows; a
  file whose content cannot be read as expected (not JSON, not text); or a file with its
  content. The environment holds what is under the module-level paths: the OpenAPI
  document, the snapshot of each version with the path string it is looked up under, and
  the registry source text.
\<close>

datatype 'a stored = Missing | Inaccessible | Unreadable | Content 'a

record env =
  openapi_file :: "json stored"
  snapshot_file :: "string \<Rightarrow> json stored"
  snapshot_path :: "string \<Rightarrow> string"
  implemented_file :: "string stored"

text \<open>
  \<open>Path.exists()\<close> calls \<open>stat\<close>: it answers False for the errors that say there is
  no file and raises every other \<open>OSError\<close> again.
\<close>

fun file_exists :: "'a stored \<Rightarrow> error + bool" where
  "file_exists Missing = Inr False"
| "file_exists Inaccessible = Inl OSError"
| "file_exists Unreadable = Inr True"
| "file_exists (Content c) = Inr True"

text \<open>\<open>path.read_text(encoding="utf-8")\<close>.\<close>

fun read_text :: "'a stored \<Rightarrow> error + 'a" where
  "read_text Missing = Inl FileNotFoundError"
| "read_text Inaccessible = Inl OSError"
| "read_text Unreadable = Inl ReadError"
| "read_text (Content c) = Inr c"

text \<open>
  \<open>_load_openapi(path)\<close> reads the file and parses it: the stored content of a JSON
  file is the document that \<open>json.loads\<close> makes of its text.
\<close>

fun load_openapi :: "json stored \<Rightarrow> error + json" where
  "load_openapi Missing = Inl FileNotFoundError"
| "load_openapi Inaccessible = Inl OSError"
| "load_openapi Unreadable = Inl ReadError"
| "load_openapi (Content doc) = Inr doc"

section \<open>Looking one operation up\<close>

record operation_info =
  oi_key :: string
  oi_summary :: json
  oi_description :: json
  oi_tags :: json
  oi_deprecated :: bool
  oi_parameters :: json
  oi_requestBody :: json
  oi_responseCodes :: "string list"

text \<open>\<open>{"found": False, "error": msg}\<close> or \<open>{"found": True, ...}\<close>.\<close>

datatype operation_result = NotFound string | Found operation_info

definition get_operation :: "env \<Rightarrow> string \<Rightarrow> string \<Rightarrow> error + operation_result" where
  "get_operation e method path =
     bind (load_openapi (openapi_file e)) (\<lambda>spec.
     bind (py_get spec ''paths'' (JObj [])) (\<lambda>paths.
     bind (py_get paths path JNull) (\<lambda>path_item.
       if \<not> truthy path_item then Inr (NotFound (''Path not found: '' @ path))
       else
     bind (py_get path_item (lower method) JNull) (\<lambda>op.
       if \<not> truthy op
       then Inr (NotFound (''Method not found: '' @ upper method @ '' '' @ path))
       else
     bind (py_get op ''responses'' (JObj [])) (\<lambda>responses.
     bind (py_keys responses) (\<lambda>codes.
     bind (py_get op ''summary'' JNull) (\<lambda>summary.
     bind (py_get op ''description'' JNull) (\<lambda>description.
     bind (py_get op ''tags'' (JArr [])) (\<lambda>tags.
     bind (py_get op ''deprecated'' (JBool False)) (\<lambda>deprecated.
     bind (py_get op ''parameters'' (JArr [])) (\<lambda>parameters.
     bind (py_get op ''requestBody'' JNull) (\<lambda>requestBody.
       Inr (Found \<lparr>oi_key = op_key method path,
                   oi_summary = summary,
                   oi_description = description,
                   oi_tags = tags,
                   oi_deprecated = truthy deprecated,
                   oi_parameters = parameters,
                   oi_requestBody = requestBody,
                   oi_responseCodes = sort codes\<rparr>)))))))))))))"

section \<open>Listing operations\<close>

definition http_methods :: "string list" where
  "http_methods = [''get'', ''post'', ''put'', ''delete'', ''patch'', ''head'', ''options'']"






section \<open>Diffing two snapshots\<close>

record version_diff =
  vd_from :: string
  vd_to :: string
  vd_added :: "string list"
  vd_removed :: "string list"

text \<open>\<open>{"ok": False, "error": msg}\<close> or \<open>{"ok": True, ...}\<close>.\<close>

datatype diff_result = DiffFailed string | DiffOk version_diff

text \<open>The local function \<open>collect\<close>: every key of every path item gives an operation key.\<close>

definition collect_path :: "string \<times> json \<Rightarrow> string set \<Rightarrow> error + string set" where
  "collect_path entry out =
     bind (py_keys (snd entry)) (\<lambda>methods.
       Inr (fold (\<lambda>method acc. insert (op_key method (fst entry)) acc) methods out))"

definition collect :: "json \<Rightarrow> error + string set" where
  "collect spec =
     bind (py_get spec ''paths'' (JObj [])) (\<lambda>paths.
     bind (py_items paths) (\<lambda>entries.
       for_each collect_path entries {}))"

definition diff_openapi_versions :: "env \<Rightarrow> string \<Rightarrow> string \<Rightarrow> error + diff_result" where
  "diff_openapi_versions e from_version to_version =
     bind (file_exists (snapshot_file e from_version)) (\<lambda>a_exists.
       if \<not> a_exists
       then Inr (DiffFailed (''Snapshot not found: '' @ snapshot_path e from_version))
       else
     bind (file_exists (snapshot_file e to_version)) (\<lambda>b_exists.
       if \<not> b_exists
       then Inr (DiffFailed (''Snapshot not found: '' @ snapshot_path e to_version))
       else
     bind (load_openapi (snapshot_file e from_version)) (\<lambda>spec_a.
     bind (load_openapi (snapshot_file e to_version)) (\<lambda>spec_b.
     bind (collect spec_a) (\<lambda>ops_a.
     bind (collect spec_b) (\<lambda>ops_b.
       Inr (DiffOk \<lparr>vd_from = from_version,
                    vd_to = to_version,
                    vd_added = sorted_list_of_set (ops_b - ops_a),
                    vd_removed = sorted_list_of_set (ops_a - ops_b)\<rparr>)))))))"

section \<open>The registry of implemented endpoints\<close>

text \<open>
  \<open>_parse_implemented_endpoints\<close> scans the registry source with
  \<^verbatim>\<open>new\s*\(\s*"([^"]+)"\s*,\s*"([^"]+)"\s*,\s*"([^"]+)"\s*,\s*"([^"]+)"\s*\)\<close>.
  The pattern is matched piece by piece. Every piece is deterministic: \<open>\s*\<close> takes all
  the white space there is (what follows it is never white space), and \<open>[^"]+\<close> takes
  every character up to the next double quote. \<open>\s\<close> matches the characters for
  which \<open>str.isspace\<close> holds: 9 to 13, 28 to 31, the space, U+0085, U+00A0, U+1680,
  U+2000 to U+200A, U+2028, U+2029, U+202F, U+205F and U+3000, here in UTF-8.
\<close>

definition whitespace :: "string list" where
  "whitespace =
     [[CHR 0x09], [CHR 0x0A], [CHR 0x0B], [CHR 0x0C], [CHR 0x0D],
      [CHR 0x1C], [CHR 0x1D], [CHR 0x1E], [CHR 0x1F], [CHR 0x20],
      [CHR 0xC2, CHR 0x85], [CHR 0xC2, CHR 0xA0], [CHR 0xE1, CHR 0x9A, CHR 0x80],
      [CHR 0xE2, CHR 0x80, CHR 0x80], [CHR 0xE2, CHR 0x80, CHR 0x81],
      [CHR 0xE2, CHR 0x80, CHR 0x82], [CHR 0xE2, CHR 0x80, CHR 0x83],
      [CHR 0xE2, CHR 0x80, CHR 0x84], [CHR 0xE2, CHR 0x80, CHR 0x85],
      [CHR 0xE2, CHR 0x80, CHR 0x86], [CHR 0xE2, CHR 0x80, CHR 0x87],
      [CHR 0xE2, CHR 0x80, CHR 0x88], [CHR 0xE2, CHR 0x80, CHR 0x89],
      [CHR 0xE2, CHR 0x80, CHR 0x8A], [CHR 0xE2, CHR 0x80, CHR 0xA8],
      [CHR 0xE2, CHR 0x80, CHR 0xA9], [CHR 0xE2, CHR 0x80, CHR 0xAF],
      [CHR 0xE2, CHR 0x81, CHR 0x9F], [CHR 0xE3, CHR 0x80, CHR 0x80]]"

text \<open>One white space character at the start of the input; the result is what follows it.\<close>

definition strip_space :: "string \<Rightarrow> string option" where
  "strip_space cs =
     (case filter (starts_with cs) whitespace of
        [] \<Rightarrow> None
      | w # ws \<Rightarrow> Some (drop (length w) cs))"

lemma starts_with_length: "starts_with t s \<Longrightarrow> length s \<le> length t"
  by (induction t s rule: starts_with.induct) simp_all

lemma strip_space_length:
  assumes "strip_space cs = Some rest"
  shows "length rest < length cs"
proof -
  from assms obtain w ws where f: "filter (starts_with cs) whitespace = w # ws"
    and r: "rest = drop (length w) cs"
    by (auto simp: strip_space_def split: list.splits)
  from f have "w \<in> set (filter (starts_with cs) whitespace)" by simp
  then have w: "w \<in> set whitespace" and st: "starts_with cs w" by simp_all
  from w have "w \<noteq> []" by (auto simp: whitespace_def)
  with starts_with_length [OF st] r show ?thesis by (cases w) simp_all
qed

function skip_spaces :: "string \<Rightarrow> string" where
  "skip_spaces [] = []"
| "skip_spaces (c # cs) =
     (case strip_space (c # cs) of
        None \<Rightarrow> c # cs
      | Some rest \<Rightarrow> skip_spaces rest)"
  by pat_completeness auto
termination
  by (relation "measure length") (auto dest: strip_space_length)

text \<open>A literal text at the start of the input; the result is what follows it.\<close>

fun literal :: "string \<Rightarrow> string \<Rightarrow> string option" where
  "literal [] cs = Some cs"
| "literal (l # ls) [] = None"
| "literal (l # ls) (c # cs) = (if l = c then literal ls cs else None)"

text \<open>\<open>"([^"]+)"\<close>: the captured text and what follows the closing quote.\<close>

definition quoted :: "string \<Rightarrow> (string \<times> string) option" where
  "quoted cs =
     (case literal ''\"'' cs of
        None \<Rightarrow> None
      | Some r \<Rightarrow>
          (let body = takeWhile (\<lambda>c. c \<noteq> CHR ''\"'') r;
               rest = dropWhile (\<lambda>c. c \<noteq> CHR ''\"'') r
           in if body = [] \<or> rest = [] then None else Some (body, tl rest)))"

text \<open>\<open>\s*,\s*"([^"]+)"\<close>: a comma between white space, then a quoted field.\<close>

definition next_field :: "string \<Rightarrow> (string \<times> string) option" where
  "next_field cs =
     (case literal '','' (skip_spaces cs) of
        None \<Rightarrow> None
      | Some r \<Rightarrow> quoted (skip_spaces r))"

text \<open>The whole pattern at the start of the input: the four groups and the rest.\<close>

definition match_endpoint :: "string \<Rightarrow> ((string \<times> string \<times> string \<times> string) \<times> string) option" where
  "match_endpoint cs =
     (case literal ''new'' cs of None \<Rightarrow> None | Some r0 \<Rightarrow>
      case literal ''('' (skip_spaces r0) of None \<Rightarrow> None | Some r1 \<Rightarrow>
      case quoted (skip_spaces r1) of None \<Rightarrow> None | Some (g1, r2) \<Rightarrow>
      case next_field r2 of None \<Rightarrow> None | Some (g2, r3) \<Rightarrow>
      case next_field r3 of None \<Rightarrow> None | Some (g3, r4) \<Rightarrow>
      case next_field r4 of None \<Rightarrow> None | Some (g4, r5) \<Rightarrow>
      case literal '')'' (skip_spaces r5) of None \<Rightarrow> None | Some r6 \<Rightarrow>
        Some ((g1, g2, g3, g4), r6))"

lemma literal_length: "literal ls cs = Some r \<Longrightarrow> length r + length ls = length cs"
  by (induction ls cs rule: literal.induct) (auto split: if_splits)

lemma skip_spaces_length: "length (skip_spaces cs) \<le> length cs"
proof (induction cs rule: skip_spaces.induct)
  case 1
  show ?case by simp
next
  case (2 c cs)
  show ?case
  proof (cases "strip_space (c # cs)")
    case None
    then show ?thesis by simp
  next
    case (Some rest)
    with 2 [OF Some] strip_space_length [OF Some] show ?thesis by simp
  qed
qed

lemma quoted_length: "quoted cs = Some (g, r) \<Longrightarrow> length r < length cs"
proof -
  assume q: "quoted cs = Some (g, r)"
  then obtain r0 where l: "literal ''\"'' cs = Some r0"
    by (auto simp: quoted_def split: option.splits)
  let ?d = "dropWhile (\<lambda>c. c \<noteq> CHR ''\"'') r0"
  from q l have r: "r = tl ?d"
    by (auto simp: quoted_def Let_def split: if_splits)
  have "length (tl ?d) \<le> length r0"
    using length_dropWhile_le [of "\<lambda>c. c \<noteq> CHR ''\"''" r0] by simp
  with literal_length [OF l] r show ?thesis by simp
qed

lemma next_field_length: "next_field cs = Some (g, r) \<Longrightarrow> length r < length cs"
proof -
  assume n: "next_field cs = Some (g, r)"
  then obtain r0 where l: "literal '','' (skip_spaces cs) = Some r0"
    and q: "quoted (skip_spaces r0) = Some (g, r)"
    by (auto simp: next_field_def split: option.splits)
  from quoted_length [OF q] skip_spaces_length [of r0] literal_length [OF l]
    skip_spaces_length [of cs]
  show ?thesis by simp
qed

lemma match_endpoint_length:
  assumes "match_endpoint cs = Some (t, r)"
  shows "length r < length cs"
proof -
  from assms obtain r0 r1 g1 r2 g2 r3 g3 r4 g4 r5 where
      l0: "literal ''new'' cs = Some r0"
    and l1: "literal ''('' (skip_spaces r0) = Some r1"
    and q1: "quoted (skip_spaces r1) = Some (g1, r2)"
    and n2: "next_field r2 = Some (g2, r3)"
    and n3: "next_field r3 = Some (g3, r4)"
    and n4: "next_field r4 = Some (g4, r5)"
    and l6: "literal '')'' (skip_spaces r5) = Some r"
    by (auto simp: match_endpoint_def split: option.splits)
  show ?thesis
    using literal_length [OF l0] skip_spaces_length [of r0] literal_length [OF l1]
      skip_spaces_length [of r1] quoted_length [OF q1] next_field_length [OF n2]
      next_field_length [OF n3] next_field_length [OF n4]
      skip_spaces_length [of r5] literal_length [OF l6]
    by simp
qed

text \<open>
  \<open>re.findall\<close>: the matches from left to right, none overlapping; after a match the
  scan goes on where the match ended, elsewhere one character further.
\<close>

function findall :: "string \<Rightarrow> (string \<times> string \<times> string \<times> string) list" where
  "findall [] = []"
| "findall (c # cs) =
     (case match_endpoint (c # cs) of
        Some (m, rest) \<Rightarrow> m # findall rest
      | None \<Rightarrow> findall cs)"
  by pat_completeness auto
termination
  by (relation "measure length") (auto dest: match_endpoint_length)

record impl_info =
  ii_api :: string
  ii_method :: string
  ii_path :: string

text \<open>
  The dict comprehension over the matches: the key is \<open>f"{m[0]} {m[1]}"\<close>; a key that
  comes again replaces the value and keeps its place.
\<close>

definition add_match ::
  "string \<times> string \<times> string \<times> string \<Rightarrow> (string \<times> impl_info) list \<Rightarrow> (string \<times> impl_info) list" where
  "add_match m d =
     (case m of (m0, m1, m2, m3) \<Rightarrow>
        dict_set d (m0 @ '' '' @ m1) \<lparr>ii_api = m2, ii_method = m3, ii_path = m1\<rparr>)"

definition parse_implemented_endpoints :: "string stored \<Rightarrow> error + (string \<times> impl_info) list" where
  "parse_implemented_endpoints f =
     bind (file_exists f) (\<lambda>present.
       if \<not> present then Inr [] else
     bind (read_text f) (\<lambda>content.
       Inr (fold add_match (findall content) [])))"

section \<open>Coverage gaps\<close>

record openapi_op =
  oo_key :: string
  oo_path :: string
  oo_method :: string
  oo_summary :: json
  oo_tags :: json
  oo_deprecated :: bool
  oo_normalizedPath :: string

record missing_entry =
  me_key :: string
  me_summary :: json
  me_tags :: json
  me_deprecated :: bool

record variation_entry =
  ve_openapi :: string
  ve_implemented :: string
  ve_summary :: json
  ve_tags :: json

record extra_entry =
  ee_key :: string
  ee_api :: string
  ee_method :: string

record coverage_stats =
  openApiTotal :: nat
  implementedTotal :: nat
  missingCount :: nat
  pathVariationsCount :: nat
  extraCount :: nat

record coverage_gaps =
  cg_stats :: coverage_stats
  cg_missing :: "missing_entry list"
  cg_pathVariations :: "variation_entry list"
  cg_extra :: "extra_entry list"

text \<open>Collecting the OpenAPI operations: the body of the inner loop, for one method.\<close>

definition index_method ::
  "bool \<Rightarrow> string \<Rightarrow> json \<Rightarrow> string \<Rightarrow> (string \<times> openapi_op) list \<Rightarrow> error + (string \<times> openapi_op) list" where
  "index_method include_deprecated p item method openapi_ops =
     bind (py_contains method item) (\<lambda>present.
       if \<not> present then Inr openapi_ops else
     bind (py_getitem item method) (\<lambda>op.
     bind (if include_deprecated then Inr False
           else bind (py_get op ''deprecated'' (JBool False)) (\<lambda>d. Inr (truthy d))) (\<lambda>skip_deprecated.
       if skip_deprecated then Inr openapi_ops else
     bind (py_get op ''summary'' JNull) (\<lambda>summary.
     bind (py_get op ''tags'' (JArr [])) (\<lambda>tags.
     bind (py_get op ''deprecated'' (JBool False)) (\<lambda>deprecated.
       Inr (dict_set openapi_ops (op_key method p)
              \<lparr>oo_key = op_key method p,
               oo_path = p,
               oo_method = upper method,
               oo_summary = summary,
               oo_tags = tags,
               oo_deprecated = truthy deprecated,
               oo_normalizedPath = normalize_path p\<rparr>)))))))"

definition index_path ::
  "bool \<Rightarrow> string \<times> json \<Rightarrow> (string \<times> openapi_op) list \<Rightarrow> error + (string \<times> openapi_op) list" where
  "index_path include_deprecated entry openapi_ops =
     for_each (index_method include_deprecated (fst entry) (snd entry)) http_methods openapi_ops"

definition collect_openapi_ops :: "env \<Rightarrow> bool \<Rightarrow> error + (string \<times> openapi_op) list" where
  "collect_openapi_ops e include_deprecated =
     bind (load_openapi (openapi_file e)) (\<lambda>spec.
     bind (py_get spec ''paths'' (JObj [])) (\<lambda>paths.
     bind (py_items paths) (\<lambda>entries.
       for_each (index_path include_deprecated) entries [])))"

text \<open>\<open>method, path = key.split(" ", 1)\<close>: without a space there is one part only.\<close>

definition split_key :: "string \<Rightarrow> error + string \<times> string" where
  "split_key key =
     (let rest = dropWhile (\<lambda>c. c \<noteq> CHR '' '') key
      in if rest = [] then Inl ValueError
         else Inr (takeWhile (\<lambda>c. c \<noteq> CHR '' '') key, tl rest))"

definition normalized_of_key :: "string \<Rightarrow> error + string" where
  "normalized_of_key key =
     bind (split_key key) (\<lambda>mp. Inr (fst mp @ '' '' @ normalize_path (snd mp)))"

text \<open>Building the normalized lookup for the implemented endpoints: the loop body.\<close>

definition add_normalized ::
  "string \<times> impl_info \<Rightarrow> (string \<times> string) list \<Rightarrow> error + (string \<times> string) list" where
  "add_normalized entry impl_normalized =
     bind (normalized_of_key (fst entry)) (\<lambda>normalized.
       Inr (dict_set impl_normalized normalized (fst entry)))"

text \<open>Categorizing one OpenAPI operation: the loop body.\<close>

definition categorize ::
  "(string \<times> impl_info) list \<Rightarrow> (string \<times> string) list \<Rightarrow> string \<times> openapi_op \<Rightarrow>
     missing_entry list \<times> variation_entry list \<Rightarrow> missing_entry list \<times> variation_entry list" where
  "categorize implemented impl_normalized entry acc =
     (case entry of (key, op) \<Rightarrow>
      case acc of (missing, path_variations) \<Rightarrow>
        if key \<in> set (dict_keys implemented) then (missing, path_variations)
        else
          (case map_of impl_normalized (oo_method op @ '' '' @ oo_normalizedPath op) of
             Some impl_key \<Rightarrow>
               (missing,
                path_variations @
                  [\<lparr>ve_openapi = key, ve_implemented = impl_key,
                    ve_summary = oo_summary op, ve_tags = oo_tags op\<rparr>])
           | None \<Rightarrow>
               (missing @
                  [\<lparr>me_key = key, me_summary = oo_summary op,
                    me_tags = oo_tags op, me_deprecated = oo_deprecated op\<rparr>],
                path_variations)))"

definition openapi_normalized :: "(string \<times> openapi_op) list \<Rightarrow> string set" where
  "openapi_normalized openapi_ops =
     set (map (\<lambda>entry. oo_method (snd entry) @ '' '' @ oo_normalizedPath (snd entry)) openapi_ops)"

text \<open>Finding the extra endpoints: the loop body.\<close>

definition add_extra ::
  "(string \<times> openapi_op) list \<Rightarrow> string \<times> impl_info \<Rightarrow> extra_entry list \<Rightarrow> error + extra_entry list" where
  "add_extra openapi_ops entry extra =
     (case entry of (key, info) \<Rightarrow>
        if key \<in> set (dict_keys openapi_ops) then Inr extra
        else
          bind (normalized_of_key key) (\<lambda>normalized.
            if normalized \<notin> openapi_normalized openapi_ops
            then Inr (extra @ [\<lparr>ee_key = key, ee_api = ii_api info, ee_method = ii_method info\<rparr>])
            else Inr extra))"

definition get_coverage_gaps :: "env \<Rightarrow> bool \<Rightarrow> error + coverage_gaps" where
  "get_coverage_gaps e include_deprecated =
     bind (collect_openapi_ops e include_deprecated) (\<lambda>openapi_ops.
     bind (parse_implemented_endpoints (implemented_file e)) (\<lambda>implemented.
     bind (for_each add_normalized implemented []) (\<lambda>impl_normalized.
       case fold (categorize implemented impl_normalized) openapi_ops ([], []) of
         (missing, path_variations) \<Rightarrow>
     bind (for_each (add_extra openapi_ops) implemented []) (\<lambda>extra.
       Inr \<lparr>cg_stats = \<lparr>openApiTotal = length openapi_ops,
                     implementedTotal = length implemented,
                     missingCount = length missing,
                     pathVariationsCount = length path_variations,
                     extraCount = length extra\<rparr>,
            cg_missing = sort_key me_key missing,
            cg_pathVariations = sort_key ve_openapi path_variations,
            cg_extra = sort_key ee_key extra\<rparr>))))"

text \<open>
  The conditions of the branches, named for the properties below: an operation is a path
  variation or missing by the two tests of the categorizing loop, with the entry that the
  loop appends for a missing one, and an implemented key is extra by the two tests of the
  last loop.
\<close>

definition is_variation ::
  "(string \<times> impl_info) list \<Rightarrow> (string \<times> string) list \<Rightarrow> string \<times> openapi_op \<Rightarrow> bool" where
  "is_variation implemented impl_normalized entry =
     (fst entry \<notin> set (dict_keys implemented) \<and>
      map_of impl_normalized (oo_method (snd entry) @ '' '' @ oo_normalizedPath (snd entry)) \<noteq> None)"

definition is_missing ::
  "(string \<times> impl_info) list \<Rightarrow> (string \<times> string) list \<Rightarrow> string \<times> openapi_op \<Rightarrow> bool" where
  "is_missing implemented impl_normalized entry =
     (fst entry \<notin> set (dict_keys implemented) \<and>
      map_of impl_normalized (oo_method (snd entry) @ '' '' @ oo_normalizedPath (snd entry)) = None)"


definition is_extra :: "(string \<times> openapi_op) list \<Rightarrow> string \<Rightarrow> bool" where
  "is_extra openapi_ops key =
     (key \<notin> set (dict_keys openapi_ops) \<and>
      (\<exists>n. normalized_of_key key = Inr n \<and> n \<notin> openapi_normalized openapi_ops))"

section \<open>Example documents\<close>

text \<open>
  Concrete inputs for the properties below: a document with a plain and a deprecated
  operation, a document whose path item carries a path-level \<open>parameters\<close> entry beside
  its operation, the tournament document of the path-variation scenario, two documents
  with deprecated operations and registries that implement some of them, and an
  environment around a document and a registry file (snapshot \<open>1\<close> is an empty
  document, snapshot \<open>2\<close> the document itself, no other snapshot exists; a file name
  holds at most 255 bytes, so the file system refuses the name made of a version of more
  than 234 bytes).
\<close>

definition example_paths :: "(string \<times> json) list" where
  "example_paths =
     [(''/a'', JObj [(''get'', JObj [(''summary'', JStr ''Read a''),
                                    (''tags'', JArr [JStr ''A'']),
                                    (''responses'', JObj [(''404'', JObj []), (''200'', JObj [])])])]),
      (''/b'', JObj [(''post'', JObj [(''deprecated'', JBool True)])])]"

definition example_spec :: json where
  "example_spec =
     JObj [(''info'', JObj [(''title'', JStr ''Lichess''), (''version'', JStr ''2.0.107'')]),
           (''paths'', JObj example_paths)]"

definition example_env :: "json \<Rightarrow> string stored \<Rightarrow> env" where
  "example_env doc registry =
     \<lparr>openapi_file = Content doc,
      snapshot_file = (\<lambda>v. if 234 < length v then Inaccessible
                            else if v = ''1'' then Content (JObj [(''paths'', JObj [])])
                            else if v = ''2'' then Content doc else Missing),
      snapshot_path = (\<lambda>v. ''snapshots/lichess.openapi.'' @ v @ ''.json''),
      implemented_file = registry\<rparr>"

definition path_level_spec :: json where
  "path_level_spec =
     JObj [(''paths'', JObj [(''/a'', JObj [(''parameters'', JArr []), (''get'', JObj [])])])]"

definition tournament_spec :: json where
  "tournament_spec =
     JObj [(''paths'',
            JObj [(''/tournaments/{tournamentId}'',
                   JObj [(''get'', JObj [(''summary'', JStr ''Get a tournament'')])])])]"

definition coverage_paths :: "(string \<times> json) list" where
  "coverage_paths =
     [(''/a'', JObj [(''get'', JObj [])]),
      (''/b'', JObj [(''post'', JObj [(''deprecated'', JBool True)])]),
      (''/t/{id}'', JObj [(''get'', JObj [(''tags'', JArr [JStr ''T''])])])]"

definition coverage_spec :: json where
  "coverage_spec = JObj [(''paths'', JObj coverage_paths)]"

definition coverage_registry :: string where
  "coverage_registry =
     ''new(\"GET\", \"/a\", \"A\", \"GetA\"),'' @
     ''new(\"GET\", \"/t/{x}\", \"T\", \"GetX\"), new (\"GET\" , \"/t/{y}\", \"T\", \"GetY\"),'' @
     ''new(\"POST\", \"/b\", \"B\", \"PostB\"),'' @
     ''new(\"GET\", \"/explorer/lookup\", \"explorer\", \"Lookup\")''"




section \<open>Properties of path normalisation\<close>

lemma match_placeholder_None_iff:
  "match_placeholder cs = None \<longleftrightarrow> (cs = [] \<or> hd cs = CHR ''}'' \<or> CHR ''}'' \<notin> set cs)"
proof (cases cs)
  case Nil
  then show ?thesis by (simp add: match_placeholder_def)
next
  case (Cons a as)
  show ?thesis
  proof (cases "a = CHR ''}''")
    case True
    with Cons show ?thesis by (simp add: match_placeholder_def)
  next
    case False
    have "dropWhile (\<lambda>c. c \<noteq> CHR ''}'') as = [] \<longleftrightarrow> CHR ''}'' \<notin> set as"
      by (auto simp: dropWhile_eq_Nil_conv)
    with Cons False show ?thesis by (simp add: match_placeholder_def Let_def)
  qed
qed

lemma normalize_path_no_close:
  "CHR ''}'' \<notin> set cs \<Longrightarrow> normalize_path cs = cs"
proof (induction cs)
  case Nil
  then show ?case by simp
next
  case (Cons c cs)
  then have "match_placeholder cs = None"
    by (simp add: match_placeholder_None_iff)
  with Cons show ?case by simp
qed

lemma normalize_path_hd_close:
  "cs \<noteq> [] \<Longrightarrow> hd cs = CHR ''}'' \<Longrightarrow> hd (normalize_path cs) = CHR ''}'' \<and> normalize_path cs \<noteq> []"
  by (cases cs) auto

lemma normalize_path_keeps_None:
  assumes "match_placeholder cs = None"
  shows "match_placeholder (normalize_path cs) = None"
proof -
  from assms consider "cs = []" | "cs \<noteq> []" "hd cs = CHR ''}''" | "CHR ''}'' \<notin> set cs"
    by (cases "cs = []") (auto simp: match_placeholder_None_iff)
  then show ?thesis
  proof cases
    case 1
    then show ?thesis by (simp add: match_placeholder_def)
  next
    case 2
    then show ?thesis
      using normalize_path_hd_close [of cs] by (simp add: match_placeholder_None_iff)
  next
    case 3
    then show ?thesis by (simp add: normalize_path_no_close match_placeholder_None_iff)
  qed
qed

lemma normalize_path_param:
  "normalize_path (''{param}'' @ xs) = ''{param}'' @ normalize_path xs"
  by (simp add: match_placeholder_def)

text \<open>
  Claim C4. Path normalisation is idempotent: normalising a normalised path changes nothing,
  for every path string.
\<close>

theorem normalize_path_idempotent:
  "normalize_path (normalize_path p) = normalize_path p"
proof (induction p rule: normalize_path.induct)
  case 1
  show ?case by simp
next
  case (2 c cs)
  show ?case
  proof (cases "c = CHR ''{''")
    case False
    with 2 show ?thesis by simp
  next
    case True
    show ?thesis
    proof (cases "match_placeholder cs")
      case None
      with True 2 show ?thesis
        by (simp add: normalize_path_keeps_None)
    next
      case (Some rest)
      with True 2 have "normalize_path (normalize_path rest) = normalize_path rest"
        by simp
      with True Some show ?thesis
        using normalize_path_param [of "normalize_path rest"] by simp
    qed
  qed
qed

section \<open>Errors and loops\<close>

lemma bind_Inr [simp]: "bind (Inr x) f = f x"
  by (simp add: bind_def)

lemma bind_Inl [simp]: "bind (Inl e) f = Inl e"
  by (simp add: bind_def)

lemma bind_eq_Inr: "bind m f = Inr y \<longleftrightarrow> (\<exists>x. m = Inr x \<and> f x = Inr y)"
  by (cases m) auto

lemma upper_lower_char: "upper_char (lower_char c) = upper_char c"
  by (simp add: upper_char_def lower_char_def)

lemma is_ascii_simps [simp]:
  "is_ascii []"
  "is_ascii (c # cs) \<longleftrightarrow> (of_char c :: nat) < 128 \<and> is_ascii cs"
  by (simp_all add: is_ascii_def)

lemma upper_ascii: "is_ascii s \<Longrightarrow> upper s = map upper_char s"
  by (induction s rule: upper.induct) (auto simp: sharp_s_def)

lemma lower_ascii: "is_ascii s \<Longrightarrow> lower s = map lower_char s"
  by (induction s rule: lower.induct) (auto simp: capital_sharp_s_def kelvin_sign_def)

lemma lower_eq_upper_eq:
  assumes "is_ascii m" "is_ascii m'" "lower m = lower m'"
  shows "upper m = upper m'"
proof -
  from assms have "map lower_char m = map lower_char m'" by (simp add: lower_ascii)
  then have "map upper_char (map lower_char m) = map upper_char (map lower_char m')"
    by (simp only:)
  moreover have "upper_char \<circ> lower_char = upper_char"
    by (simp add: fun_eq_iff upper_lower_char)
  ultimately have "map upper_char m = map upper_char m'" by simp
  with assms show ?thesis by (simp add: upper_ascii)
qed

lemma for_each_invariant:
  assumes "for_each body xs s = Inr s'"
    and "P s"
    and "\<And>x s t. x \<in> set xs \<Longrightarrow> P s \<Longrightarrow> body x s = Inr t \<Longrightarrow> P t"
  shows "P s'"
  using assms
proof (induction xs arbitrary: s)
  case Nil
  then show ?case by simp
next
  case (Cons x xs)
  from Cons.prems(1) obtain t where t: "body x s = Inr t" and r: "for_each body xs t = Inr s'"
    by (auto split: sum.splits)
  have "P t" using Cons.prems(2) t Cons.prems(3) [of x s t] by simp
  show ?case
  proof (rule Cons.IH [OF r \<open>P t\<close>])
    fix y u v assume "y \<in> set xs" "P u" "body y u = Inr v"
    then show "P v" using Cons.prems(3) [of y u v] by simp
  qed
qed

lemma for_each_append:
  "for_each body (xs @ ys) s = bind (for_each body xs s) (for_each body ys)"
  by (induction xs arbitrary: s) (simp_all split: sum.splits)

lemma dict_keys_simps [simp]:
  "dict_keys [] = []"
  "dict_keys (a # d) = fst a # dict_keys d"
  by (simp_all add: dict_keys_def)

lemma set_dict_keys_dict_set:
  "set (dict_keys (dict_set d k v)) = insert k (set (dict_keys d))"
proof (induction d)
  case Nil
  show ?case by simp
next
  case (Cons a d)
  obtain k' v' where a: "a = (k', v')" by (cases a)
  show ?case
  proof (cases "k' = k")
    case True
    with a show ?thesis by simp
  next
    case False
    with a Cons show ?thesis by (simp add: insert_commute)
  qed
qed

lemma distinct_dict_set:
  "distinct (dict_keys d) \<Longrightarrow> distinct (dict_keys (dict_set d k v))"
proof (induction d)
  case Nil
  show ?case by simp
next
  case (Cons a d)
  obtain k' v' where a: "a = (k', v')" by (cases a)
  show ?case
  proof (cases "k' = k")
    case True
    with a Cons.prems show ?thesis by simp
  next
    case False
    with a Cons show ?thesis by (simp add: set_dict_keys_dict_set)
  qed
qed


lemma map_insort_key: "map f (insort_key f x xs) = insort (f x) (map f xs)"
  by (induction xs) simp_all

lemma map_sort_key: "map f (sort_key f xs) = sort (map f xs)"
  by (induction xs) (simp_all add: map_insort_key)

section \<open>Dicts built by the coverage computation\<close>

lemma index_method_cases:
  assumes "index_method incl p item m ops = Inr ops'"
  shows "ops' = ops \<or> (\<exists>rec. ops' = dict_set ops (op_key m p) rec)"
  using assms
  by (auto simp: index_method_def bind_eq_Inr split: if_splits)

lemma index_method_distinct:
  "index_method incl p item m ops = Inr ops' \<Longrightarrow> distinct (dict_keys ops)
     \<Longrightarrow> distinct (dict_keys ops')"
  using index_method_cases [of incl p item m ops ops'] distinct_dict_set [of ops]
  by blast

lemma index_path_distinct:
  assumes "index_path incl entry ops = Inr ops'" and "distinct (dict_keys ops)"
  shows "distinct (dict_keys ops')"
proof (rule for_each_invariant [where P = "\<lambda>d. distinct (dict_keys d)"])
  show "for_each (index_method incl (fst entry) (snd entry)) http_methods ops = Inr ops'"
    using assms(1) by (simp add: index_path_def)
  show "distinct (dict_keys ops)" by fact
  show "\<And>x s t. x \<in> set http_methods \<Longrightarrow> distinct (dict_keys s) \<Longrightarrow>
          index_method incl (fst entry) (snd entry) x s = Inr t \<Longrightarrow> distinct (dict_keys t)"
    by (rule index_method_distinct)
qed

lemma collect_openapi_ops_distinct:
  assumes "collect_openapi_ops e incl = Inr ops"
  shows "distinct (dict_keys ops)"
proof -
  from assms obtain entries where f: "for_each (index_path incl) entries [] = Inr ops"
    unfolding collect_openapi_ops_def bind_eq_Inr by blast
  show ?thesis
  proof (rule for_each_invariant [where P = "\<lambda>d. distinct (dict_keys d)", OF f])
    show "distinct (dict_keys ([] :: (string \<times> openapi_op) list))" by simp
    show "\<And>x s t. x \<in> set entries \<Longrightarrow> distinct (dict_keys s) \<Longrightarrow>
          index_path incl x s = Inr t \<Longrightarrow> distinct (dict_keys t)"
      by (rule index_path_distinct)
  qed
qed

section \<open>The three classes of OpenAPI operations\<close>

lemma categorize_keys:
  assumes "categorize impl norm entry (m, v) = (m1, v1)"
  shows "map me_key m1 = map me_key m @ (if is_missing impl norm entry then [fst entry] else [])"
    and "map ve_openapi v1 = map ve_openapi v @ (if is_variation impl norm entry then [fst entry] else [])"
  using assms
  by (cases entry; simp add: categorize_def is_missing_def is_variation_def
        split: if_splits option.splits; fastforce)+

lemma fold_categorize_keys:
  assumes "fold (categorize impl norm) ops (m, v) = (m', v')"
  shows "map me_key m' = map me_key m @ map fst (filter (is_missing impl norm) ops) \<and>
         map ve_openapi v' = map ve_openapi v @ map fst (filter (is_variation impl norm) ops)"
  using assms
proof (induction ops arbitrary: m v)
  case Nil
  then show ?case by simp
next
  case (Cons entry ops)
  obtain m1 v1 where s: "categorize impl norm entry (m, v) = (m1, v1)"
    by (cases "categorize impl norm entry (m, v)")
  with Cons.prems have "fold (categorize impl norm) ops (m1, v1) = (m', v')" by simp
  from Cons.IH [OF this] categorize_keys [OF s] show ?case by simp
qed

lemma get_coverage_gaps_Inr:
  assumes "get_coverage_gaps e incl = Inr r"
  obtains ops impl norm m v ex where
    "collect_openapi_ops e incl = Inr ops"
    "parse_implemented_endpoints (implemented_file e) = Inr impl"
    "for_each add_normalized impl [] = Inr norm"
    "fold (categorize impl norm) ops ([], []) = (m, v)"
    "for_each (add_extra ops) impl [] = Inr ex"
    "r = \<lparr>cg_stats = \<lparr>openApiTotal = length ops,
                     implementedTotal = length impl,
                     missingCount = length m,
                     pathVariationsCount = length v,
                     extraCount = length ex\<rparr>,
            cg_missing = sort_key me_key m,
            cg_pathVariations = sort_key ve_openapi v,
            cg_extra = sort_key ee_key ex\<rparr>"
proof -
  from assms obtain ops impl norm ex where
      a: "collect_openapi_ops e incl = Inr ops"
    and b: "parse_implemented_endpoints (implemented_file e) = Inr impl"
    and c: "for_each add_normalized impl [] = Inr norm"
    and d: "for_each (add_extra ops) impl [] = Inr ex"
    and r: "r = \<lparr>cg_stats = \<lparr>openApiTotal = length ops,
                     implementedTotal = length impl,
                     missingCount = length (fst (fold (categorize impl norm) ops ([], []))),
                     pathVariationsCount = length (snd (fold (categorize impl norm) ops ([], []))),
                     extraCount = length ex\<rparr>,
            cg_missing = sort_key me_key (fst (fold (categorize impl norm) ops ([], []))),
            cg_pathVariations = sort_key ve_openapi (snd (fold (categorize impl norm) ops ([], []))),
            cg_extra = sort_key ee_key ex\<rparr>"
    by (auto simp: get_coverage_gaps_def bind_eq_Inr case_prod_beta)
  show thesis
    by (rule that [OF a b c _ d,
          of "fst (fold (categorize impl norm) ops ([], []))"
             "snd (fold (categorize impl norm) ops ([], []))"])
      (simp_all add: r)
qed


lemma length_three_filters:
  assumes "\<And>x. x \<in> set xs \<Longrightarrow>
     (P x \<and> \<not> Q x \<and> \<not> R x) \<or> (\<not> P x \<and> Q x \<and> \<not> R x) \<or> (\<not> P x \<and> \<not> Q x \<and> R x)"
  shows "length xs = length (filter P xs) + length (filter Q xs) + length (filter R xs)"
  using assms
proof (induction xs)
  case Nil
  show ?case by simp
next
  case (Cons x xs)
  have "length xs = length (filter P xs) + length (filter Q xs) + length (filter R xs)"
    by (rule Cons.IH) (simp add: Cons.prems)
  moreover have "(P x \<and> \<not> Q x \<and> \<not> R x) \<or> (\<not> P x \<and> Q x \<and> \<not> R x) \<or> (\<not> P x \<and> \<not> Q x \<and> R x)"
    by (rule Cons.prems) simp
  ultimately show ?case by auto
qed

lemma categorize_trichotomy:
  "(fst x \<in> set (dict_keys impl) \<and> \<not> is_missing impl norm x \<and> \<not> is_variation impl norm x) \<or>
   (fst x \<notin> set (dict_keys impl) \<and> is_missing impl norm x \<and> \<not> is_variation impl norm x) \<or>
   (fst x \<notin> set (dict_keys impl) \<and> \<not> is_missing impl norm x \<and> is_variation impl norm x)"
  by (cases "fst x \<in> set (dict_keys impl)") (auto simp: is_missing_def is_variation_def)

text \<open>
  Claim C1. \<open>get_coverage_gaps\<close> partitions the OpenAPI operation keys it considers into
  three classes: the keys that are also implemented keys (exact matches), the keys of the
  path variations and the keys of the missing entries. The classes cover the considered
  keys, they are pairwise disjoint, the three counts of the statistics are the sizes of
  the classes, and \<open>openApiTotal\<close> is the number of exact matches plus \<open>missingCount\<close>
  plus \<open>pathVariationsCount\<close>.
\<close>

theorem coverage_partition:
  assumes ops: "collect_openapi_ops e include_deprecated = Inr openapi_ops"
    and impl: "parse_implemented_endpoints (implemented_file e) = Inr implemented"
    and res: "get_coverage_gaps e include_deprecated = Inr r"
  shows "(set (dict_keys openapi_ops) \<inter> set (dict_keys implemented)) \<union>
           set (map ve_openapi (cg_pathVariations r)) \<union>
           set (map me_key (cg_missing r)) = set (dict_keys openapi_ops) \<and>
         (set (dict_keys openapi_ops) \<inter> set (dict_keys implemented)) \<inter>
           set (map ve_openapi (cg_pathVariations r)) = {} \<and>
         (set (dict_keys openapi_ops) \<inter> set (dict_keys implemented)) \<inter>
           set (map me_key (cg_missing r)) = {} \<and>
         set (map ve_openapi (cg_pathVariations r)) \<inter> set (map me_key (cg_missing r)) = {} \<and>
         openApiTotal (cg_stats r) = card (set (dict_keys openapi_ops)) \<and>
         missingCount (cg_stats r) = card (set (map me_key (cg_missing r))) \<and>
         pathVariationsCount (cg_stats r) = card (set (map ve_openapi (cg_pathVariations r))) \<and>
         openApiTotal (cg_stats r) =
           card (set (dict_keys openapi_ops) \<inter> set (dict_keys implemented)) +
           missingCount (cg_stats r) + pathVariationsCount (cg_stats r)"
proof -
  from res obtain ops' impl' norm m v ex where
      "collect_openapi_ops e include_deprecated = Inr ops'"
      "parse_implemented_endpoints (implemented_file e) = Inr impl'"
    and f: "fold (categorize impl' norm) ops' ([], []) = (m, v)"
    and r: "r = \<lparr>cg_stats = \<lparr>openApiTotal = length ops',
                     implementedTotal = length impl',
                     missingCount = length m,
                     pathVariationsCount = length v,
                     extraCount = length ex\<rparr>,
            cg_missing = sort_key me_key m,
            cg_pathVariations = sort_key ve_openapi v,
            cg_extra = sort_key ee_key ex\<rparr>"
    by (rule get_coverage_gaps_Inr)
  with ops impl have eq: "ops' = openapi_ops" "impl' = implemented" by simp_all
  let ?E = "filter (\<lambda>x. fst x \<in> set (dict_keys implemented)) openapi_ops"
  let ?M = "filter (is_missing implemented norm) openapi_ops"
  let ?V = "filter (is_variation implemented norm) openapi_ops"
  from fold_categorize_keys [OF f] eq
  have mk: "map me_key m = map fst ?M" and vk: "map ve_openapi v = map fst ?V"
    by simp_all
  have d: "distinct (map fst openapi_ops)"
    using collect_openapi_ops_distinct [OF ops] by (simp add: dict_keys_def)
  then have inj: "inj_on fst (set openapi_ops)" by (simp add: distinct_map)
  have dM: "distinct (map fst ?M)" and dV: "distinct (map fst ?V)" and dE: "distinct (map fst ?E)"
    using d by (simp_all add: distinct_map_filter)
  have tri: "\<And>x. (fst x \<in> set (dict_keys implemented) \<and> \<not> is_missing implemented norm x \<and>
                   \<not> is_variation implemented norm x) \<or>
               (fst x \<notin> set (dict_keys implemented) \<and> is_missing implemented norm x \<and>
                   \<not> is_variation implemented norm x) \<or>
               (fst x \<notin> set (dict_keys implemented) \<and> \<not> is_missing implemented norm x \<and>
                   is_variation implemented norm x)"
    by (rule categorize_trichotomy)
  have sM: "set (map me_key (cg_missing r)) = fst ` set ?M"
    by (simp add: r map_sort_key mk)
  have sV: "set (map ve_openapi (cg_pathVariations r)) = fst ` set ?V"
    by (simp add: r map_sort_key vk)
  have sE: "set (dict_keys openapi_ops) \<inter> set (dict_keys implemented) = fst ` set ?E"
    by (auto simp: dict_keys_def)
  have sK: "set (dict_keys openapi_ops) = fst ` set openapi_ops"
    by (simp add: dict_keys_def)
  have parts: "set ?E \<union> set ?V \<union> set ?M = set openapi_ops"
    by (auto simp: is_missing_def is_variation_def)
  have EV: "set ?E \<inter> set ?V = {}" and EM: "set ?E \<inter> set ?M = {}" and VM: "set ?V \<inter> set ?M = {}"
    by (auto simp: is_missing_def is_variation_def)
  have sub: "set ?E \<subseteq> set openapi_ops" "set ?V \<subseteq> set openapi_ops" "set ?M \<subseteq> set openapi_ops"
    by auto
  have c1: "(set (dict_keys openapi_ops) \<inter> set (dict_keys implemented)) \<union>
           set (map ve_openapi (cg_pathVariations r)) \<union>
           set (map me_key (cg_missing r)) = set (dict_keys openapi_ops)"
  proof -
    have "fst ` set ?E \<union> fst ` set ?V \<union> fst ` set ?M = fst ` set openapi_ops"
      by (simp only: image_Un [symmetric] parts)
    then show ?thesis by (simp only: sE sM sV) (simp only: sK)
  qed
  have c2: "(set (dict_keys openapi_ops) \<inter> set (dict_keys implemented)) \<inter>
           set (map ve_openapi (cg_pathVariations r)) = {}"
    unfolding sV sE using inj_on_image_Int [OF inj sub(1) sub(2)] EV by simp
  have c3: "(set (dict_keys openapi_ops) \<inter> set (dict_keys implemented)) \<inter>
           set (map me_key (cg_missing r)) = {}"
    unfolding sM sE using inj_on_image_Int [OF inj sub(1) sub(3)] EM by simp
  have c4: "set (map ve_openapi (cg_pathVariations r)) \<inter> set (map me_key (cg_missing r)) = {}"
    unfolding sM sV using inj_on_image_Int [OF inj sub(2) sub(3)] VM by simp
  have "length (map me_key m) = length (map fst ?M)" by (simp only: mk)
  then have lM: "length m = length ?M" by (simp only: length_map)
  have "length (map ve_openapi v) = length (map fst ?V)" by (simp only: vk)
  then have lV: "length v = length ?V" by (simp only: length_map)
  have st: "openApiTotal (cg_stats r) = length openapi_ops"
    "missingCount (cg_stats r) = length m" "pathVariationsCount (cg_stats r) = length v"
    using r eq by simp_all
  have cK: "openApiTotal (cg_stats r) = card (set (dict_keys openapi_ops))"
    unfolding sK st using distinct_card [OF d] by simp
  have cM: "missingCount (cg_stats r) = card (set (map me_key (cg_missing r)))"
    unfolding sM st lM using distinct_card [OF dM] by simp
  have cV: "pathVariationsCount (cg_stats r) = card (set (map ve_openapi (cg_pathVariations r)))"
    unfolding sV st lV using distinct_card [OF dV] by simp
  have cE: "card (set (dict_keys openapi_ops) \<inter> set (dict_keys implemented)) = length ?E"
    unfolding sE using distinct_card [OF dE] by simp
  have total: "length openapi_ops = length ?E + length ?M + length ?V"
    by (rule length_three_filters) (rule tri)
  have sum: "openApiTotal (cg_stats r) =
           card (set (dict_keys openapi_ops) \<inter> set (dict_keys implemented)) +
           missingCount (cg_stats r) + pathVariationsCount (cg_stats r)"
    unfolding cE st lM lV by (rule total)
  from c1 c2 c3 c4 cK cM cV sum show ?thesis by (intro conjI)
qed

theorem coverage_partition_witness:
  "\<exists>ops impl r.
     collect_openapi_ops (example_env coverage_spec (Content coverage_registry)) True = Inr ops \<and>
     parse_implemented_endpoints
       (implemented_file (example_env coverage_spec (Content coverage_registry))) = Inr impl \<and>
     get_coverage_gaps (example_env coverage_spec (Content coverage_registry)) True = Inr r \<and>
     dict_keys ops = [''GET /a'', ''POST /b'', ''GET /t/{id}''] \<and>
     map ve_openapi (cg_pathVariations r) = [''GET /t/{id}''] \<and>
     map me_key (cg_missing r) = [] \<and>
     openApiTotal (cg_stats r) = 3 \<and>
     set (dict_keys ops) \<inter> set (dict_keys impl) \<union> set (map ve_openapi (cg_pathVariations r)) \<union>
       set (map me_key (cg_missing r)) = set (dict_keys ops) \<and>
     openApiTotal (cg_stats r) =
       card (set (dict_keys ops) \<inter> set (dict_keys impl)) +
       missingCount (cg_stats r) + pathVariationsCount (cg_stats r)"
proof -
  let ?e = "example_env coverage_spec (Content coverage_registry)"
  let ?ops = "projr (collect_openapi_ops ?e True)"
  let ?impl = "projr (parse_implemented_endpoints (implemented_file ?e))"
  let ?r = "projr (get_coverage_gaps ?e True)"
  have a: "collect_openapi_ops ?e True = Inr ?ops" by code_simp
  have b: "parse_implemented_endpoints (implemented_file ?e) = Inr ?impl" by code_simp
  have c: "get_coverage_gaps ?e True = Inr ?r" by code_simp
  have k: "dict_keys ?ops = [''GET /a'', ''POST /b'', ''GET /t/{id}'']" by code_simp
  have v: "map ve_openapi (cg_pathVariations ?r) = [''GET /t/{id}'']" by code_simp
  have m: "map me_key (cg_missing ?r) = []" by code_simp
  have t: "openApiTotal (cg_stats ?r) = 3" by code_simp
  note th = coverage_partition [OF a b c]
  have p1: "set (dict_keys ?ops) \<inter> set (dict_keys ?impl) \<union>
       set (map ve_openapi (cg_pathVariations ?r)) \<union>
       set (map me_key (cg_missing ?r)) = set (dict_keys ?ops)"
    by (rule th [THEN conjunct1])
  have p8: "openApiTotal (cg_stats ?r) =
       card (set (dict_keys ?ops) \<inter> set (dict_keys ?impl)) +
       missingCount (cg_stats ?r) + pathVariationsCount (cg_stats ?r)"
    by (rule th [THEN conjunct2, THEN conjunct2, THEN conjunct2, THEN conjunct2,
                 THEN conjunct2, THEN conjunct2, THEN conjunct2])
  show ?thesis
    by (rule exI [of _ ?ops], rule exI [of _ ?impl], rule exI [of _ ?r])
      (intro conjI a b c k v m t p1 p8)
qed

section \<open>An absent registry\<close>

lemma is_missing_empty: "is_missing [] [] x"
  by (simp add: is_missing_def)

lemma is_variation_empty: "\<not> is_variation [] [] x"
  by (simp add: is_variation_def)

text \<open>
  Claim C7. When the registry file is absent, parsing returns the empty set of implemented
  records and raises nothing; \<open>get_coverage_gaps\<close> then returns, whenever the OpenAPI
  operations could be collected, with every considered operation in the missing list (its
  keys are the considered keys, sorted) and with no path variation and no extra entry.
\<close>

theorem absent_registry_all_missing:
  assumes reg: "implemented_file e = Missing"
    and ops: "collect_openapi_ops e include_deprecated = Inr openapi_ops"
  shows "parse_implemented_endpoints (implemented_file e) = Inr [] \<and>
         (\<exists>r. get_coverage_gaps e include_deprecated = Inr r \<and>
              map me_key (cg_missing r) = sort (dict_keys openapi_ops) \<and>
              cg_pathVariations r = [] \<and>
              cg_extra r = [] \<and>
              missingCount (cg_stats r) = openApiTotal (cg_stats r) \<and>
              pathVariationsCount (cg_stats r) = 0 \<and>
              extraCount (cg_stats r) = 0)"
proof -
  have p: "parse_implemented_endpoints (implemented_file e) = Inr []"
    by (simp add: parse_implemented_endpoints_def reg)
  obtain m v where f: "fold (categorize [] []) openapi_ops ([], []) = (m, v)"
    by (cases "fold (categorize [] []) openapi_ops ([], [])")
  from fold_categorize_keys [OF f]
  have mk: "map me_key m = map fst openapi_ops" and vk: "map ve_openapi v = []"
    by (simp_all add: is_missing_empty is_variation_empty)
  from vk have v: "v = []" by simp
  have "length (map me_key m) = length (map fst openapi_ops)" by (simp only: mk)
  then have lm: "length m = length openapi_ops" by (simp only: length_map)
  have g: "get_coverage_gaps e include_deprecated =
      Inr \<lparr>cg_stats = \<lparr>openApiTotal = length openapi_ops,
                     implementedTotal = 0,
                     missingCount = length m,
                     pathVariationsCount = 0,
                     extraCount = 0\<rparr>,
            cg_missing = sort_key me_key m,
            cg_pathVariations = [],
            cg_extra = []\<rparr>"
    by (simp add: get_coverage_gaps_def ops p f v)
  have s: "map me_key (sort_key me_key m) = sort (dict_keys openapi_ops)"
    by (simp add: map_sort_key mk dict_keys_def)
  from p g s lm show ?thesis by simp
qed

theorem absent_registry_all_missing_witness:
  "parse_implemented_endpoints (implemented_file (example_env example_spec Missing)) = Inr [] \<and>
   (\<exists>r. get_coverage_gaps (example_env example_spec Missing) True = Inr r \<and>
        map me_key (cg_missing r) = [''GET /a'', ''POST /b''] \<and>
        cg_pathVariations r = [] \<and>
        cg_extra r = [])"
proof -
  let ?e = "example_env example_spec Missing"
  let ?ops = "projr (collect_openapi_ops ?e True)"
  have reg: "implemented_file ?e = Missing" by (simp add: example_env_def)
  have a: "collect_openapi_ops ?e True = Inr ?ops" by code_simp
  have k: "sort (dict_keys ?ops) = [''GET /a'', ''POST /b'']" by code_simp
  note th = absent_registry_all_missing [OF reg a]
  from th [THEN conjunct2] obtain r where
      "get_coverage_gaps ?e True = Inr r"
      "map me_key (cg_missing r) = sort (dict_keys ?ops)"
      "cg_pathVariations r = []" "cg_extra r = []"
    by (elim exE conjE)
  with k have "\<exists>r. get_coverage_gaps ?e True = Inr r \<and>
        map me_key (cg_missing r) = [''GET /a'', ''POST /b''] \<and>
        cg_pathVariations r = [] \<and> cg_extra r = []"
    by (intro exI [of _ r] conjI) (simp_all only:)
  with th [THEN conjunct1] show ?thesis by (intro conjI)
qed

section \<open>Extra endpoints\<close>

lemma add_extra_keys:
  assumes "add_extra ops entry ex = Inr ex'"
  shows "map ee_key ex' = map ee_key ex @ (if is_extra ops (fst entry) then [fst entry] else [])"
proof (cases "fst entry \<in> set (dict_keys ops)")
  case True
  with assms show ?thesis
    by (cases entry) (simp add: add_extra_def is_extra_def)
next
  case False
  with assms obtain n where n: "normalized_of_key (fst entry) = Inr n"
    by (cases entry) (auto simp: add_extra_def bind_eq_Inr)
  with False assms show ?thesis
    by (cases entry) (auto simp: add_extra_def is_extra_def split: if_splits)
qed

lemma for_each_add_extra_keys:
  assumes "for_each (add_extra ops) impl ex = Inr ex'"
  shows "map ee_key ex' = map ee_key ex @ filter (is_extra ops) (dict_keys impl)"
  using assms
proof (induction impl arbitrary: ex)
  case Nil
  then show ?case by simp
next
  case (Cons entry impl)
  from Cons.prems obtain ex1 where s: "add_extra ops entry ex = Inr ex1"
    and r: "for_each (add_extra ops) impl ex1 = Inr ex'"
    by (auto split: sum.splits)
  from Cons.IH [OF r] add_extra_keys [OF s] show ?case by simp
qed

lemma split_key_total:
  "CHR '' '' \<in> set key \<Longrightarrow> \<exists>mp. split_key key = Inr mp"
  by (simp add: split_key_def Let_def dropWhile_eq_Nil_conv)

lemma normalized_of_key_total:
  "CHR '' '' \<in> set key \<Longrightarrow> \<exists>n. normalized_of_key key = Inr n"
  using split_key_total [of key] by (auto simp: normalized_of_key_def)

lemma add_match_spaces:
  assumes "\<forall>k \<in> set (dict_keys d). CHR '' '' \<in> set k"
  shows "\<forall>k \<in> set (dict_keys (add_match m d)). CHR '' '' \<in> set k"
proof -
  obtain m0 m1 m2 m3 where m: "m = (m0, m1, m2, m3)" by (cases m) auto
  show ?thesis using assms
    by (simp add: m add_match_def set_dict_keys_dict_set)
qed

lemma fold_add_match_spaces:
  "\<forall>k \<in> set (dict_keys d). CHR '' '' \<in> set k \<Longrightarrow>
   \<forall>k \<in> set (dict_keys (fold add_match ms d)). CHR '' '' \<in> set k"
proof (induction ms arbitrary: d)
  case Nil
  then show ?case by simp
next
  case (Cons m ms)
  from add_match_spaces [OF Cons.prems, of m] show ?case
    by (simp add: Cons.IH)
qed

lemma parsed_keys_have_space:
  assumes "parse_implemented_endpoints f = Inr impl" and "k \<in> set (dict_keys impl)"
  shows "CHR '' '' \<in> set k"
proof (cases f)
  case Missing
  with assms show ?thesis by (simp add: parse_implemented_endpoints_def)
next
  case Inaccessible
  with assms show ?thesis by (simp add: parse_implemented_endpoints_def)
next
  case Unreadable
  with assms show ?thesis by (simp add: parse_implemented_endpoints_def)
next
  case (Content src)
  with assms have i: "impl = fold add_match (findall src) []"
    by (simp add: parse_implemented_endpoints_def)
  have "\<forall>k \<in> set (dict_keys (fold add_match (findall src) [])). CHR '' '' \<in> set k"
    by (rule fold_add_match_spaces) simp
  with i assms(2) show ?thesis by simp
qed

text \<open>
  Claim C5. An implemented record is reported as extra exactly when its key is not a key
  of the OpenAPI operation index and its normalized key is not among the normalized keys
  of all the considered OpenAPI operations (every implemented key has a normalized key).
  In particular a record whose normalized key is the normalized key of some considered
  operation is never extra, whatever that operation was classified as.
\<close>

theorem extra_iff_unmatched:
  assumes ops: "collect_openapi_ops e include_deprecated = Inr openapi_ops"
    and impl: "parse_implemented_endpoints (implemented_file e) = Inr implemented"
    and res: "get_coverage_gaps e include_deprecated = Inr r"
  shows "set (map ee_key (cg_extra r)) =
           {key \<in> set (dict_keys implemented).
              key \<notin> set (dict_keys openapi_ops) \<and>
              (\<exists>n. normalized_of_key key = Inr n \<and> n \<notin> openapi_normalized openapi_ops)} \<and>
         (\<forall>key \<in> set (dict_keys implemented). \<exists>n. normalized_of_key key = Inr n) \<and>
         (\<forall>key n. normalized_of_key key = Inr n \<and> n \<in> openapi_normalized openapi_ops \<longrightarrow>
              key \<notin> set (map ee_key (cg_extra r)))"
proof -
  from res obtain ops' impl' norm m v ex where
      "collect_openapi_ops e include_deprecated = Inr ops'"
      "parse_implemented_endpoints (implemented_file e) = Inr impl'"
      "for_each add_normalized impl' [] = Inr norm"
    and x: "for_each (add_extra ops') impl' [] = Inr ex"
    and r: "r = \<lparr>cg_stats = \<lparr>openApiTotal = length ops',
                     implementedTotal = length impl',
                     missingCount = length m,
                     pathVariationsCount = length v,
                     extraCount = length ex\<rparr>,
            cg_missing = sort_key me_key m,
            cg_pathVariations = sort_key ve_openapi v,
            cg_extra = sort_key ee_key ex\<rparr>"
    by (rule get_coverage_gaps_Inr)
  with ops impl have eq: "ops' = openapi_ops" "impl' = implemented" by simp_all
  from for_each_add_extra_keys [OF x] eq
  have xk: "map ee_key ex = filter (is_extra openapi_ops) (dict_keys implemented)" by simp
  have "set (map ee_key (cg_extra r)) = set (filter (is_extra openapi_ops) (dict_keys implemented))"
    by (simp add: r map_sort_key xk)
  then have a: "set (map ee_key (cg_extra r)) =
           {key \<in> set (dict_keys implemented).
              key \<notin> set (dict_keys openapi_ops) \<and>
              (\<exists>n. normalized_of_key key = Inr n \<and> n \<notin> openapi_normalized openapi_ops)}"
    by (simp add: is_extra_def)
  have b: "\<forall>key \<in> set (dict_keys implemented). \<exists>n. normalized_of_key key = Inr n"
    using parsed_keys_have_space [OF impl] normalized_of_key_total by blast
  have c: "\<forall>key n. normalized_of_key key = Inr n \<and> n \<in> openapi_normalized openapi_ops \<longrightarrow>
              key \<notin> set (map ee_key (cg_extra r))"
    unfolding a by auto
  from a b c show ?thesis by (intro conjI)
qed

theorem extra_iff_unmatched_witness:
  "\<exists>ops impl r.
     collect_openapi_ops (example_env coverage_spec (Content coverage_registry)) True = Inr ops \<and>
     parse_implemented_endpoints
       (implemented_file (example_env coverage_spec (Content coverage_registry))) = Inr impl \<and>
     get_coverage_gaps (example_env coverage_spec (Content coverage_registry)) True = Inr r \<and>
     dict_keys impl =
       [''GET /a'', ''GET /t/{x}'', ''GET /t/{y}'', ''POST /b'', ''GET /explorer/lookup''] \<and>
     map ve_implemented (cg_pathVariations r) = [''GET /t/{y}''] \<and>
     map ee_key (cg_extra r) = [''GET /explorer/lookup''] \<and>
     normalized_of_key ''GET /t/{x}'' = Inr ''GET /t/{param}'' \<and>
     ''GET /t/{param}'' \<in> openapi_normalized ops \<and>
     ''GET /t/{x}'' \<notin> set (map ee_key (cg_extra r))"
proof -
  let ?e = "example_env coverage_spec (Content coverage_registry)"
  let ?ops = "projr (collect_openapi_ops ?e True)"
  let ?impl = "projr (parse_implemented_endpoints (implemented_file ?e))"
  let ?r = "projr (get_coverage_gaps ?e True)"
  have a: "collect_openapi_ops ?e True = Inr ?ops" by code_simp
  have b: "parse_implemented_endpoints (implemented_file ?e) = Inr ?impl" by code_simp
  have c: "get_coverage_gaps ?e True = Inr ?r" by code_simp
  have k: "dict_keys ?impl =
       [''GET /a'', ''GET /t/{x}'', ''GET /t/{y}'', ''POST /b'', ''GET /explorer/lookup'']"
    by code_simp
  have v: "map ve_implemented (cg_pathVariations ?r) = [''GET /t/{y}'']" by code_simp
  have x: "map ee_key (cg_extra ?r) = [''GET /explorer/lookup'']" by code_simp
  have n: "normalized_of_key ''GET /t/{x}'' = Inr ''GET /t/{param}''" by code_simp
  have o: "''GET /t/{param}'' \<in> openapi_normalized ?ops" by code_simp
  note th = extra_iff_unmatched [OF a b c, THEN conjunct2, THEN conjunct2]
  from th n o have p: "''GET /t/{x}'' \<notin> set (map ee_key (cg_extra ?r))"
    by (elim allE [of _ "''GET /t/{x}''"] allE [of _ "''GET /t/{param}''"]) simp
  show ?thesis
    by (rule exI [of _ ?ops], rule exI [of _ ?impl], rule exI [of _ ?r])
      (intro conjI a b c k v x n o p)
qed

section \<open>Deprecated operations\<close>

































section \<open>Properties of the single-operation lookup and of the snapshot diff\<close>

text \<open>
  Claim C10 as stated speaks of every method string. The sharp s and the capital sharp s
  are two casings of one letter, with the same lower-case form, so both calls look the
  same entry up; but the upper case of the first is \<open>SS\<close> and the second is its own
  upper case, and the two calls return different messages.
\<close>

theorem casing_beyond_ascii_counterexample:
  "lower sharp_s = lower capital_sharp_s \<and>
   get_operation (example_env example_spec Missing) sharp_s ''/a'' =
     Inr (NotFound ''Method not found: SS /a'') \<and>
   get_operation (example_env example_spec Missing) capital_sharp_s ''/a'' =
     Inr (NotFound (''Method not found: '' @ capital_sharp_s @ '' /a'')) \<and>
   get_operation (example_env example_spec Missing) sharp_s ''/a'' \<noteq>
     get_operation (example_env example_spec Missing) capital_sharp_s ''/a''"
proof -
  have l: "lower sharp_s = lower capital_sharp_s" by code_simp
  have a: "get_operation (example_env example_spec Missing) sharp_s ''/a'' =
     Inr (NotFound ''Method not found: SS /a'')" by code_simp
  have b: "get_operation (example_env example_spec Missing) capital_sharp_s ''/a'' =
     Inr (NotFound (''Method not found: '' @ capital_sharp_s @ '' /a''))" by code_simp
  have "''Method not found: SS /a'' \<noteq> ''Method not found: '' @ capital_sharp_s @ '' /a''"
    by (simp add: capital_sharp_s_def)
  with a b have "get_operation (example_env example_spec Missing) sharp_s ''/a'' \<noteq>
     get_operation (example_env example_spec Missing) capital_sharp_s ''/a''"
    by simp
  with l a b show ?thesis by (intro conjI)
qed

text \<open>
  Claim C10, amended. For ASCII method strings \<open>get_operation\<close> does not depend on the
  casing of its method argument: two ASCII method strings that differ only in the case of
  their letters (they have the same lower-case form) give the same result for every
  document and path, because the lookup lower-cases the method and the key and the
  message upper-case it.
\<close>

theorem get_operation_case_invariant:
  assumes "is_ascii m" and "is_ascii m'" and l: "lower m = lower m'"
  shows "get_operation e m p = get_operation e m' p"
proof -
  from assms have u: "upper m = upper m'" by (rule lower_eq_upper_eq)
  show ?thesis
    unfolding get_operation_def op_key_def l u ..
qed

theorem get_operation_case_invariant_witness:
  "is_ascii ''GeT'' \<and> is_ascii ''get'' \<and> lower ''GeT'' = lower ''get'' \<and>
   get_operation (example_env example_spec Missing) ''GeT'' ''/a'' =
     get_operation (example_env example_spec Missing) ''get'' ''/a'' \<and>
   get_operation (example_env example_spec Missing) ''get'' ''/a'' =
     Inr (Found \<lparr>oi_key = ''GET /a'', oi_summary = JStr ''Read a'', oi_description = JNull,
                  oi_tags = JArr [JStr ''A''], oi_deprecated = False, oi_parameters = JArr [],
                  oi_requestBody = JNull, oi_responseCodes = [''200'', ''404'']\<rparr>)"
proof -
  have a1: "is_ascii ''GeT''" and a2: "is_ascii ''get''" by code_simp+
  have l: "lower ''GeT'' = lower ''get''" by code_simp
  have v: "get_operation (example_env example_spec Missing) ''get'' ''/a'' =
     Inr (Found \<lparr>oi_key = ''GET /a'', oi_summary = JStr ''Read a'', oi_description = JNull,
                  oi_tags = JArr [JStr ''A''], oi_deprecated = False, oi_parameters = JArr [],
                  oi_requestBody = JNull, oi_responseCodes = [''200'', ''404'']\<rparr>)"
    by code_simp
  note th = get_operation_case_invariant
    [OF a1 a2 l, of "example_env example_spec Missing" "''/a''"]
  from a1 a2 l th v show ?thesis by (intro conjI)
qed




text \<open>
  Claim C9. The snapshot diff is symmetric under swapping its arguments: when the diff of
  two snapshots returns its lists, so does the diff the other way round, and what one
  reports as added the other reports as removed.
\<close>

theorem diff_swap:
  assumes "diff_openapi_versions e a b = Inr (DiffOk r)"
  shows "\<exists>r'. diff_openapi_versions e b a = Inr (DiffOk r') \<and>
           vd_added r = vd_removed r' \<and> vd_removed r = vd_added r'"
proof -
  from assms have ex: "file_exists (snapshot_file e a) = Inr True"
      "file_exists (snapshot_file e b) = Inr True"
    by (auto simp: diff_openapi_versions_def bind_eq_Inr split: if_splits)
  with assms obtain spec_a spec_b ops_a ops_b where
      la: "load_openapi (snapshot_file e a) = Inr spec_a"
    and lb: "load_openapi (snapshot_file e b) = Inr spec_b"
    and ca: "collect spec_a = Inr ops_a"
    and cb: "collect spec_b = Inr ops_b"
    and r: "r = \<lparr>vd_from = a, vd_to = b,
                 vd_added = sorted_list_of_set (ops_b - ops_a),
                 vd_removed = sorted_list_of_set (ops_a - ops_b)\<rparr>"
    by (auto simp: diff_openapi_versions_def bind_eq_Inr)
  from ex la lb ca cb have
    "diff_openapi_versions e b a =
       Inr (DiffOk \<lparr>vd_from = b, vd_to = a,
                    vd_added = sorted_list_of_set (ops_a - ops_b),
                    vd_removed = sorted_list_of_set (ops_b - ops_a)\<rparr>)"
    by (simp add: diff_openapi_versions_def)
  with r show ?thesis by simp
qed

theorem diff_swap_witness:
  "diff_openapi_versions (example_env example_spec Missing) ''1'' ''2'' =
     Inr (DiffOk \<lparr>vd_from = ''1'', vd_to = ''2'',
                  vd_added = [''GET /a'', ''POST /b''], vd_removed = []\<rparr>) \<and>
   (\<exists>r'. diff_openapi_versions (example_env example_spec Missing) ''2'' ''1'' = Inr (DiffOk r') \<and>
         vd_removed r' = [''GET /a'', ''POST /b''] \<and> vd_added r' = [])"
proof -
  have d: "diff_openapi_versions (example_env example_spec Missing) ''1'' ''2'' =
     Inr (DiffOk \<lparr>vd_from = ''1'', vd_to = ''2'',
                  vd_added = [''GET /a'', ''POST /b''], vd_removed = []\<rparr>)"
    by code_simp
  from diff_swap [OF d] d show ?thesis by auto
qed

text \<open>
  Claim C3, which says that every key of the diff has one of the seven recognized methods
  and that other path-item entries are skipped. \<open>collect\<close> inside
  \<open>diff_openapi_versions\<close> takes every key of a path item, unlike the loops of
  \<open>list_operations\<close> and \<open>get_coverage_gaps\<close>: a path-level \<open>parameters\<close> entry
  gives the key \<open>PARAMETERS /a\<close> in the added list.
\<close>

theorem diff_keeps_unrecognized_keys:
  "diff_openapi_versions (example_env path_level_spec Missing) ''1'' ''2'' =
     Inr (DiffOk \<lparr>vd_from = ''1'', vd_to = ''2'',
                  vd_added = [''GET /a'', ''PARAMETERS /a''], vd_removed = []\<rparr>)"
  by code_simp

section \<open>The path-variation scenario\<close>

text \<open>
  Claim C2 as stated, with the registry tuple whose first field is \<open>t\<close>: the first field
  is the method part of the implemented key, so the implemented key is
  \<open>t /tournaments/{broadcastTournamentId}\<close>, the OpenAPI operation is missing, there is
  no path variation, and the implemented record is extra.
\<close>

theorem tag_registry_counterexample:
  "get_coverage_gaps
     (example_env tournament_spec
        (Content ''new(\"t\", \"/tournaments/{broadcastTournamentId}\", \"lichess\", \"GetBroadcastTournament\")''))
     False =
   Inr \<lparr>cg_stats = \<lparr>openApiTotal = 1, implementedTotal = 1, missingCount = 1,
                    pathVariationsCount = 0, extraCount = 1\<rparr>,
        cg_missing = [\<lparr>me_key = ''GET /tournaments/{tournamentId}'',
                        me_summary = JStr ''Get a tournament'', me_tags = JArr [],
                        me_deprecated = False\<rparr>],
        cg_pathVariations = [],
        cg_extra = [\<lparr>ee_key = ''t /tournaments/{broadcastTournamentId}'',
                      ee_api = ''lichess'', ee_method = ''GetBroadcastTournament''\<rparr>]\<rparr>"
  by code_simp

text \<open>
  Claim C2, amended: with the registry tuple whose first field is the HTTP method \<open>GET\<close>,
  \<open>get_coverage_gaps\<close> pairs \<open>GET /tournaments/{tournamentId}\<close> with the implemented
  key \<open>GET /tournaments/{broadcastTournamentId}\<close> as a path variation, and the missing
  list is empty.
\<close>

theorem method_registry_path_variation:
  "get_coverage_gaps
     (example_env tournament_spec
        (Content ''new(\"GET\", \"/tournaments/{broadcastTournamentId}\", \"lichess\", \"GetBroadcastTournament\")''))
     False =
   Inr \<lparr>cg_stats = \<lparr>openApiTotal = 1, implementedTotal = 1, missingCount = 0,
                    pathVariationsCount = 1, extraCount = 0\<rparr>,
        cg_missing = [],
        cg_pathVariations = [\<lparr>ve_openapi = ''GET /tournaments/{tournamentId}'',
                               ve_implemented = ''GET /tournaments/{broadcastTournamentId}'',
                               ve_summary = JStr ''Get a tournament'', ve_tags = JArr []\<rparr>],
        cg_extra = []\<rparr>"
  by code_simp


end
